theory Spec2Isabelle
  imports Main
begin

section \<open>The rut package: Chilean RUT validation, parsing and formatting\<close>

text \<open>
  A shallow embedding of \<^verbatim>\<open>rut.go\<close>. A Go \<^verbatim>\<open>string\<close> is a sequence of bytes and is
  modelled as a \<^typ>\<open>string\<close> (a list of 8-bit \<^typ>\<open>char\<close>s); a \<^verbatim>\<open>byte\<close> is a
  \<^typ>\<open>char\<close>, compared through its numeric value \<^term>\<open>of_char c :: nat\<close>. Go's
  \<^verbatim>\<open>int\<close> is modelled as \<^typ>\<open>int\<close>: every integer the package computes from a
  parsed identifier stays below \<open>10 ^ 9\<close>, and the checksum loop only divides a positive
  number and only adds to a sum bounded by 63 times the number of digits, so no
  operation of the code can wrap around. A function returning \<^verbatim>\<open>(T, error)\<close> is modelled
  as returning \<open>error + T\<close>, with \<open>Inl\<close> for a non-nil error.
\<close>

subsection \<open>Errors, styles and the identifier\<close>

datatype error = ErrInvalidFormat | ErrEmptyRUT | ErrTooShort | ErrTooLong

text \<open>\<^verbatim>\<open>type FormatStyle int\<close> with three constants numbered by \<^verbatim>\<open>iota\<close>.\<close>

type_synonym FormatStyle = int

definition FormatComplete :: FormatStyle where
  "FormatComplete = 0"

definition FormatEscaped :: FormatStyle where
  "FormatEscaped = 1"

definition FormatWithDash :: FormatStyle where
  "FormatWithDash = 2"

definition multipliers :: "int list" where
  "multipliers = [2, 3, 4, 5, 6, 7]"

definition isValidRUTChar :: "char \<Rightarrow> char \<times> bool" where
  "isValidRUTChar c =
     (if (of_char (CHR ''0'') :: nat) \<le> of_char c \<and> (of_char c :: nat) \<le> of_char (CHR ''9'')
      then (c, True)
      else if c = CHR ''k'' \<or> c = CHR ''K'' then (CHR ''K'', True)
      else (CHR 0x00, False))"

record RUT =
  Number :: int
  DV :: char

subsection \<open>The standard library: strconv.Atoi and strconv.Itoa\<close>

text \<open>
  The two conversions of Go's \<^verbatim>\<open>strconv\<close> that the package calls, written after their
  documentation. \<open>Atoi\<close> reads a base-10 integer with an optional sign; it fails (\<open>None\<close>)
  on the empty string, on a sign alone, on any byte that is not a decimal digit, and on
  a value outside the range of a 64-bit \<^verbatim>\<open>int\<close>. \<open>Itoa\<close> writes the decimal digits, with
  a leading minus sign for a negative number.
\<close>

definition is_digit :: "char \<Rightarrow> bool" where
  "is_digit c \<longleftrightarrow> (48::nat) \<le> of_char c \<and> (of_char c :: nat) \<le> 57"

definition digit_val :: "char \<Rightarrow> int" where
  "digit_val c = of_char c - 48"

definition dec_val :: "string \<Rightarrow> int" where
  "dec_val s = foldl (\<lambda>n ch. n * 10 + digit_val ch) 0 s"

definition Atoi :: "string \<Rightarrow> int option" where
  "Atoi s =
     (if s = [] then None
      else
        let neg = (hd s = CHR ''-'');
            t = (if hd s = CHR ''-'' \<or> hd s = CHR ''+'' then tl s else s)
        in if t = [] then None
           else if \<not> list_all is_digit t then None
           else
             let v = (if neg then - dec_val t else dec_val t)
             in if v < - (2 ^ 63) \<or> 2 ^ 63 - 1 < v then None else Some v)"

definition digit_char :: "nat \<Rightarrow> char" where
  "digit_char d = char_of (48 + d)"

fun digits_of :: "nat \<Rightarrow> string" where
  "digits_of n = (if n < 10 then [digit_char n] else digits_of (n div 10) @ [digit_char (n mod 10)])"

declare digits_of.simps [simp del]

definition Itoa :: "int \<Rightarrow> string" where
  "Itoa i = (if i < 0 then CHR ''-'' # digits_of (nat (- i)) else digits_of (nat i))"

subsection \<open>Parse\<close>

text \<open>
  The first loop of \<^verbatim>\<open>Parse\<close>: it walks the bytes of the input, skips the two
  separators, gives up with \<open>ErrTooLong\<close> once twelve bytes are already stored, gives up
  with \<open>ErrInvalidFormat\<close> at a byte that \<open>isValidRUTChar\<close> rejects, and otherwise stores
  the normalised byte in the array \<^verbatim>\<open>raw\<close> at index \<^verbatim>\<open>n\<close>.
\<close>

fun scan :: "string \<Rightarrow> char list \<Rightarrow> nat \<Rightarrow> error + (char list \<times> nat)" where
  "scan [] raw n = Inr (raw, n)"
| "scan (c # cs) raw n =
     (if c = CHR ''.'' \<or> c = CHR ''-'' then scan cs raw n
      else if n \<ge> 12 then Inl ErrTooLong
      else (case isValidRUTChar c of
              (char, ok) \<Rightarrow>
                if \<not> ok then Inl ErrInvalidFormat
                else scan cs (raw[n := char]) (n + 1)))"

text \<open>The second loop: is there a \<open>K\<close> at an index below \<^verbatim>\<open>n-1\<close>?\<close>

function misplaced_K :: "char list \<Rightarrow> nat \<Rightarrow> nat \<Rightarrow> bool" where
  "misplaced_K raw n i =
     (if i < n - 1
      then (if raw ! i = CHR ''K'' then True else misplaced_K raw n (i + 1))
      else False)"
  by pat_completeness auto
termination
  by (relation "measure (\<lambda>(raw, n, i). n - 1 - i)") auto

declare misplaced_K.simps [simp del]

definition Parse :: "string \<Rightarrow> error + RUT" where
  "Parse s =
     (if s = [] then Inl ErrEmptyRUT
      else
        case scan s (replicate 12 (CHR 0x00)) 0 of
          Inl e \<Rightarrow> Inl e
        | Inr (raw, n) \<Rightarrow>
            if n < 5 then Inl ErrTooShort
            else if n > 10 then Inl ErrTooLong
            else
              let dv = raw ! (n - 1)
              in if misplaced_K raw n 0 then Inl ErrInvalidFormat
                 else
                   let numStr = take (n - 1) raw
                   in (case Atoi numStr of
                         None \<Rightarrow> Inl ErrInvalidFormat
                       | Some num \<Rightarrow> Inr \<lparr>Number = num, DV = dv\<rparr>))"

subsection \<open>CalculateDV\<close>

text \<open>
  The loop of \<^verbatim>\<open>CalculateDV\<close>, with its three variables. Go's \<^verbatim>\<open>%\<close> and \<^verbatim>\<open>/\<close> truncate
  towards zero; they are applied to \<^verbatim>\<open>number\<close> only under the guard \<^verbatim>\<open>number > 0\<close> and
  to a sum that is never negative, where they agree with \<open>mod\<close> and \<open>div\<close>.
\<close>

function dv_loop :: "int \<Rightarrow> int \<Rightarrow> nat \<Rightarrow> int" where
  "dv_loop number sum1 multiplierIdx =
     (if number > 0
      then dv_loop (number div 10)
                   (sum1 + (number mod 10) * multipliers ! multiplierIdx)
                   ((multiplierIdx + 1) mod 6)
      else sum1)"
  by pat_completeness auto
termination
  by (relation "measure (\<lambda>(number, sum1, multiplierIdx). nat number)") auto

declare dv_loop.simps [simp del]

definition CalculateDV :: "int \<Rightarrow> char" where
  "CalculateDV number =
     (if number = 0 then CHR ''0''
      else
        let sum1 = dv_loop number 0 0;
            remainder = sum1 mod 11;
            checkResult = 11 - remainder
        in if checkResult = 11 then CHR ''0''
           else if checkResult = 10 then CHR ''K''
           else char_of (checkResult + of_char (CHR ''0'')))"

subsection \<open>Formatting and validation\<close>

text \<open>
  The loop of the \<^verbatim>\<open>FormatComplete\<close> branch: \<^verbatim>\<open>n\<close> is the length of the digit string,
  \<^verbatim>\<open>i\<close> the index of the byte being written, \<^verbatim>\<open>b\<close> the builder.
\<close>

fun complete_loop :: "nat \<Rightarrow> nat \<Rightarrow> string \<Rightarrow> string \<Rightarrow> string" where
  "complete_loop n i [] b = b"
| "complete_loop n i (c # cs) b =
     (let b1 = b @ [c];
          distFromEnd = int n - int i - 1
      in complete_loop n (i + 1) cs
           (if distFromEnd > 0 \<and> distFromEnd mod 3 = 0 then b1 @ [CHR ''.''] else b1))"

definition RUT_Format :: "RUT \<Rightarrow> FormatStyle \<Rightarrow> string" where
  "RUT_Format r style =
     (let numStr = Itoa (Number r)
      in if style = FormatEscaped then numStr @ [DV r]
         else if style = FormatWithDash then numStr @ [CHR ''-''] @ [DV r]
         else complete_loop (length numStr) 0 numStr [] @ [CHR ''-''] @ [DV r])"

definition RUT_String :: "RUT \<Rightarrow> string" where
  "RUT_String r = RUT_Format r FormatComplete"

definition RUT_Validate :: "RUT \<Rightarrow> bool" where
  "RUT_Validate r = (if Number r \<le> 0 then False else DV r = CalculateDV (Number r))"

definition Validate :: "string \<Rightarrow> bool" where
  "Validate rut = (case Parse rut of Inl err \<Rightarrow> False | Inr r \<Rightarrow> RUT_Validate r)"

definition Format :: "string \<Rightarrow> FormatStyle \<Rightarrow> error + string" where
  "Format s style = (case Parse s of Inl err \<Rightarrow> Inl err | Inr r \<Rightarrow> Inr (RUT_Format r style))"

subsection \<open>Vocabulary of the specification\<close>

text \<open>
  The words the specification uses about an input text: its separators, its meaningful
  (separator-free) characters, the allowed alphabet and the normalisation of a character.
  The last two are read off \<open>isValidRUTChar\<close>.
\<close>

definition is_sep :: "char \<Rightarrow> bool" where
  "is_sep c \<longleftrightarrow> c = CHR ''.'' \<or> c = CHR ''-''"

definition meaningful :: "string \<Rightarrow> string" where
  "meaningful s = filter (\<lambda>c. \<not> is_sep c) s"

definition allowed :: "char \<Rightarrow> bool" where
  "allowed c \<longleftrightarrow> snd (isValidRUTChar c)"

definition normalise :: "char \<Rightarrow> char" where
  "normalise c = fst (isValidRUTChar c)"

text \<open>
  The reference checksum, in the words of the specification: digit \<open>i\<close> of the body,
  counted from the least significant one, is multiplied by the weight at position
  \<open>i mod 6\<close> of \<open>[2,3,4,5,6,7]\<close>; the check character is read off
  \<open>11 - sum mod 11\<close>; a body of zero yields \<open>0\<close> directly.
\<close>

definition spec_digit :: "int \<Rightarrow> nat \<Rightarrow> int" where
  "spec_digit body i = (body div 10 ^ i) mod 10"

definition spec_weight :: "nat \<Rightarrow> int" where
  "spec_weight i = [2, 3, 4, 5, 6, 7] ! (i mod 6)"

definition spec_sum :: "int \<Rightarrow> nat \<Rightarrow> int" where
  "spec_sum body k = sum_list (map (\<lambda>i. spec_digit body i * spec_weight i) [0..<k])"

definition spec_check :: "int \<Rightarrow> char" where
  "spec_check result =
     (if result = 11 then CHR ''0''
      else if result = 10 then CHR ''K''
      else ''0123456789'' ! nat result)"

definition computeCheck :: "int \<Rightarrow> char" where
  "computeCheck body =
     (if body = 0 then CHR ''0''
      else spec_check (11 - spec_sum body (length (Itoa body)) mod 11))"

text \<open>
  A check letter is misplaced when \<open>K\<close> or \<open>k\<close> occurs among the meaningful characters
  before the last one. The body of an input is parseable when \<open>Atoi\<close> accepts all but the
  last of its normalised meaningful characters.
\<close>

definition misplaced_letter :: "string \<Rightarrow> bool" where
  "misplaced_letter s \<longleftrightarrow>
     CHR ''K'' \<in> set (butlast (meaningful s)) \<or> CHR ''k'' \<in> set (butlast (meaningful s))"

definition parseable_body :: "string \<Rightarrow> bool" where
  "parseable_body s \<longleftrightarrow> Atoi (butlast (map normalise (meaningful s))) \<noteq> None"

text \<open>
  The grouping rule of the complete style, in the words of the specification: scanning
  the digit string from the left, a period follows a character exactly when the number
  of characters remaining after it is positive and a multiple of three.
\<close>

fun group_spec :: "string \<Rightarrow> string" where
  "group_spec [] = []"
| "group_spec (c # cs) =
     (if 0 < length cs \<and> length cs mod 3 = 0 then c # CHR ''.'' # group_spec cs
      else c # group_spec cs)"

section \<open>Auxiliary facts\<close>

lemma isValidRUTChar_digit: "is_digit c \<Longrightarrow> isValidRUTChar c = (c, True)"
  by (simp add: isValidRUTChar_def is_digit_def)

lemma isValidRUTChar_alt:
  "isValidRUTChar c =
     (if is_digit c then (c, True)
      else if c = CHR ''k'' \<or> c = CHR ''K'' then (CHR ''K'', True)
      else (CHR 0x00, False))"
  by (simp add: isValidRUTChar_def is_digit_def)

lemma K_not_digit: "\<not> is_digit (CHR ''K'')" "\<not> is_digit (CHR ''k'')"
  "\<not> is_digit (CHR ''.'')" "\<not> is_digit (CHR ''-'')" "\<not> is_digit (CHR ''+'')"
  by (simp_all add: is_digit_def)

lemma allowed_iff: "allowed c \<longleftrightarrow> is_digit c \<or> c = CHR ''k'' \<or> c = CHR ''K''"
  by (simp add: allowed_def isValidRUTChar_alt)

lemma normalise_digit: "is_digit c \<Longrightarrow> normalise c = c"
  by (simp add: normalise_def isValidRUTChar_alt)

lemma normalise_K: "normalise (CHR ''K'') = CHR ''K''" "normalise (CHR ''k'') = CHR ''K''"
  by (simp_all add: normalise_def isValidRUTChar_alt K_not_digit)

lemma scan_Cons:
  "scan (c # cs) raw n =
     (if is_sep c then scan cs raw n
      else if n \<ge> 12 then Inl ErrTooLong
      else if \<not> allowed c then Inl ErrInvalidFormat
      else scan cs (raw[n := normalise c]) (Suc n))"
  by (cases "isValidRUTChar c") (simp add: is_sep_def allowed_def normalise_def)

lemma scan_eq:
  "n \<le> 12 \<Longrightarrow> length raw = 12 \<Longrightarrow>
   scan s raw n =
     (if \<not> list_all allowed (take (12 - n) (meaningful s)) then Inl ErrInvalidFormat
      else if 12 - n < length (meaningful s) then Inl ErrTooLong
      else Inr (take n raw @ map normalise (meaningful s) @ drop (n + length (meaningful s)) raw,
                n + length (meaningful s)))"
proof (induction s arbitrary: raw n)
  case Nil
  then show ?case by (simp add: meaningful_def)
next
  case (Cons c cs)
  show ?case
  proof (cases "is_sep c")
    case True
    then have "meaningful (c # cs) = meaningful cs"
      by (simp add: meaningful_def)
    moreover from True have "scan (c # cs) raw n = scan cs raw n"
      by (simp add: is_sep_def)
    ultimately show ?thesis using Cons by simp
  next
    case False
    then have m: "meaningful (c # cs) = c # meaningful cs"
      by (simp add: meaningful_def)
    from False have ns: "\<not> (c = CHR ''.'' \<or> c = CHR ''-'')"
      by (simp add: is_sep_def)
    show ?thesis
    proof (cases "n = 12")
      case True
      then show ?thesis using ns m by simp
    next
      case n: False
      with Cons.prems have lt: "n < 12" by simp
      then obtain k where k: "12 - n = Suc k" "k = 12 - Suc n"
        by (cases "12 - n") auto
      show ?thesis
      proof (cases "allowed c")
        case False
        then have "scan (c # cs) raw n = Inl ErrInvalidFormat"
          using \<open>\<not> is_sep c\<close> lt by (simp add: scan_Cons del: scan.simps)
        then show ?thesis using False m k by simp
      next
        case True
        then have "scan (c # cs) raw n = scan cs (raw[n := normalise c]) (Suc n)"
          using \<open>\<not> is_sep c\<close> lt by (simp add: scan_Cons del: scan.simps)
        moreover have "Suc n \<le> 12" "length (raw[n := normalise c]) = 12"
          using lt Cons.prems by simp_all
        moreover have "take (Suc n) (raw[n := normalise c]) = take n raw @ [normalise c]"
          using lt Cons.prems by (simp add: take_Suc_conv_app_nth)
        moreover have "drop (Suc n + j) (raw[n := normalise c]) = drop (Suc (n + j)) raw" for j
          by simp
        ultimately show ?thesis
          using Cons.IH [of "Suc n" "raw[n := normalise c]"] True m k by auto
      qed
    qed
  qed
qed

lemma misplaced_K_iff:
  "misplaced_K raw n i \<longleftrightarrow> (\<exists>j. i \<le> j \<and> j < n - 1 \<and> raw ! j = CHR ''K'')"
proof (induction raw n i rule: misplaced_K.induct)
  case (1 raw n i)
  show ?case
  proof (cases "i < n - 1")
    case False
    have "misplaced_K raw n i = False"
      using False by (subst misplaced_K.simps) simp
    then show ?thesis using False by auto
  next
    case True
    show ?thesis
    proof (cases "raw ! i = CHR ''K''")
      case K: True
      have "misplaced_K raw n i = True"
        using True K by (subst misplaced_K.simps) simp
      with True K show ?thesis by auto
    next
      case K: False
      have "misplaced_K raw n i = misplaced_K raw n (i + 1)"
        using True K by (subst misplaced_K.simps) simp
      also have "\<dots> \<longleftrightarrow> (\<exists>j. i + 1 \<le> j \<and> j < n - 1 \<and> raw ! j = CHR ''K'')"
        using 1 True K by simp
      also have "\<dots> \<longleftrightarrow> (\<exists>j. i \<le> j \<and> j < n - 1 \<and> raw ! j = CHR ''K'')"
      proof -
        have "i \<le> j \<and> raw ! j = CHR ''K'' \<longleftrightarrow> i + 1 \<le> j \<and> raw ! j = CHR ''K''" for j
          using K by (cases "j = i") auto
        then show ?thesis by blast
      qed
      finally show ?thesis .
    qed
  qed
qed

lemma misplaced_K_buffer:
  "misplaced_K (xs @ rest) (length xs) 0 \<longleftrightarrow> CHR ''K'' \<in> set (butlast xs)"
proof -
  have nth: "(xs @ rest) ! j = butlast xs ! j" if "j < length xs - 1" for j
  proof -
    from that have "j < length xs" "j < length (butlast xs)" by simp_all
    then show ?thesis by (simp only: nth_append nth_butlast if_True)
  qed
  have "misplaced_K (xs @ rest) (length xs) 0 \<longleftrightarrow>
        (\<exists>j. j < length xs - 1 \<and> (xs @ rest) ! j = CHR ''K'')"
    by (simp add: misplaced_K_iff)
  also have "\<dots> \<longleftrightarrow> (\<exists>j. j < length xs - 1 \<and> butlast xs ! j = CHR ''K'')"
    using nth by auto
  also have "\<dots> \<longleftrightarrow> CHR ''K'' \<in> set (butlast xs)"
    unfolding in_set_conv_nth length_butlast by blast
  finally show ?thesis .
qed

lemma dec_val_snoc: "dec_val (t @ [c]) = dec_val t * 10 + digit_val c"
  by (simp add: dec_val_def)

lemma dec_val_Nil: "dec_val [] = 0"
  by (simp add: dec_val_def)

lemma digit_val_nat: "digit_val c = int (of_char c) - 48"
  by (simp add: digit_val_def of_nat_of_char)

lemma digit_val_range: "is_digit c \<Longrightarrow> 0 \<le> digit_val c \<and> digit_val c \<le> 9"
  unfolding is_digit_def digit_val_nat by linarith

lemma dec_val_range:
  "list_all is_digit t \<Longrightarrow> 0 \<le> dec_val t \<and> dec_val t < 10 ^ length t"
proof (induction t rule: rev_induct)
  case Nil
  then show ?case by (simp add: dec_val_Nil)
next
  case (snoc c t)
  then have "0 \<le> dec_val t" "dec_val t + 1 \<le> 10 ^ length t" "0 \<le> digit_val c" "digit_val c \<le> 9"
    using digit_val_range [of c] by simp_all
  then have "0 \<le> dec_val t * 10 + digit_val c" "dec_val t * 10 + digit_val c < 10 * 10 ^ length t"
    by linarith+
  then show ?case
    by (simp add: dec_val_snoc)
qed

lemma Atoi_digits:
  assumes "list_all is_digit t" "t \<noteq> []" "length t \<le> 9"
  shows "Atoi t = Some (dec_val t)"
proof -
  from assms have "is_digit (hd t)" by (cases t) simp_all
  then have sign: "hd t \<noteq> CHR ''-''" "hd t \<noteq> CHR ''+''"
    using K_not_digit by auto
  have "dec_val t < 10 ^ length t" "0 \<le> dec_val t"
    using dec_val_range assms(1) by simp_all
  moreover have "(10::int) ^ length t \<le> 10 ^ 9"
    using assms(3) by (intro power_increasing) simp_all
  ultimately have "0 \<le> dec_val t" "dec_val t < 10 ^ 9" by simp_all
  then have "\<not> (dec_val t < - (2 ^ 63) \<or> 2 ^ 63 - 1 < dec_val t)" by simp
  then show ?thesis
    using assms(1,2) sign by (simp add: Atoi_def Let_def)
qed

lemma normalise_allowed:
  "allowed c \<Longrightarrow> is_digit (normalise c) \<or> normalise c = CHR ''K''"
  by (auto simp: allowed_iff normalise_digit normalise_K)

lemma body_digits:
  assumes "list_all allowed m" "CHR ''K'' \<notin> set (butlast (map normalise m))"
  shows "list_all is_digit (butlast (map normalise m))"
proof -
  have "is_digit x" if "x \<in> set (butlast (map normalise m))" for x
  proof -
    from that have "x \<in> set (map normalise m)" by (rule in_set_butlastD)
    then obtain c where "c \<in> set m" "x = normalise c" by auto
    with assms(1) have "is_digit x \<or> x = CHR ''K''"
      using normalise_allowed by (auto simp: list_all_iff)
    with that assms(2) show ?thesis by auto
  qed
  then show ?thesis by (simp add: list_all_iff)
qed

lemma scan_start:
  "scan s (replicate 12 (CHR 0x00)) 0 =
     (if \<not> list_all allowed (take 12 (meaningful s)) then Inl ErrInvalidFormat
      else if 12 < length (meaningful s) then Inl ErrTooLong
      else Inr (map normalise (meaningful s) @ drop (length (meaningful s)) (replicate 12 (CHR 0x00)),
                length (meaningful s)))"
  using scan_eq [of 0 "replicate 12 (CHR 0x00)" s] by simp

lemma Parse_eq:
  "Parse s =
     (if s = [] then Inl ErrEmptyRUT
      else if \<not> list_all allowed (take 12 (meaningful s)) then Inl ErrInvalidFormat
      else if 10 < length (meaningful s) then Inl ErrTooLong
      else if length (meaningful s) < 5 then Inl ErrTooShort
      else if CHR ''K'' \<in> set (butlast (map normalise (meaningful s))) then Inl ErrInvalidFormat
      else Inr \<lparr>Number = dec_val (butlast (map normalise (meaningful s))),
                DV = last (map normalise (meaningful s))\<rparr>)"
proof -
  define m where "m = meaningful s"
  define xs where "xs = map normalise m"
  define rest where "rest = drop (length m) (replicate 12 (CHR 0x00))"
  have len: "length xs = length m" by (simp add: xs_def)
  consider (empty) "s = []"
    | (bad) "s \<noteq> []" "\<not> list_all allowed (take 12 m)"
    | (long) "s \<noteq> []" "list_all allowed (take 12 m)" "12 < length m"
    | (long2) "s \<noteq> []" "list_all allowed (take 12 m)" "length m \<le> 12" "10 < length m"
    | (short) "s \<noteq> []" "list_all allowed (take 12 m)" "length m < 5"
    | (ok) "s \<noteq> []" "list_all allowed (take 12 m)" "5 \<le> length m" "length m \<le> 10"
    by linarith
  then have "Parse s =
     (if s = [] then Inl ErrEmptyRUT
      else if \<not> list_all allowed (take 12 m) then Inl ErrInvalidFormat
      else if 10 < length m then Inl ErrTooLong
      else if length m < 5 then Inl ErrTooShort
      else if CHR ''K'' \<in> set (butlast xs) then Inl ErrInvalidFormat
      else Inr \<lparr>Number = dec_val (butlast xs), DV = last xs\<rparr>)"
  proof cases
    case empty
    then show ?thesis by (simp add: Parse_def)
  next
    case bad
    then show ?thesis by (simp add: Parse_def scan_start m_def)
  next
    case long
    then show ?thesis by (simp add: Parse_def scan_start m_def)
  next
    case long2
    then show ?thesis by (simp add: Parse_def scan_start m_def)
  next
    case short
    then show ?thesis by (simp add: Parse_def scan_start m_def)
  next
    case ok
    then have sc: "scan s (replicate 12 (CHR 0x00)) 0 = Inr (xs @ rest, length xs)"
      by (simp add: scan_start m_def xs_def rest_def)
    from ok have all: "list_all allowed m" by simp
    from ok have ne: "xs \<noteq> []" using len by auto
    from ok have lx: "\<not> length xs < 5" "\<not> 10 < length xs" using len by auto
    have rhs: "10 < length m \<longleftrightarrow> False" "length m < 5 \<longleftrightarrow> False"
      using ok by auto
    have dv: "(xs @ rest) ! (length xs - Suc 0) = last xs"
      using ne by (simp add: nth_append last_conv_nth)
    have num: "take (length xs - Suc 0) xs = butlast xs"
      by (simp add: butlast_conv_take)
    show ?thesis
    proof (cases "CHR ''K'' \<in> set (butlast xs)")
      case True
      then show ?thesis
        using ok(1,2) sc lx by (simp add: Parse_def misplaced_K_buffer rhs)
    next
      case False
      then have "list_all is_digit (butlast xs)"
        using all body_digits unfolding xs_def by blast
      moreover have "length (butlast xs) = length xs - 1" by simp
      then have "butlast xs \<noteq> []" "length (butlast xs) \<le> 9"
        using lx by (auto simp del: length_butlast)
      ultimately have "Atoi (butlast xs) = Some (dec_val (butlast xs))"
        by (rule Atoi_digits)
      then show ?thesis
        using ok(1,2) sc lx False by (simp add: Parse_def misplaced_K_buffer dv num rhs)
    qed
  qed
  then show ?thesis by (simp only: m_def xs_def)
qed

lemma digit_char_digit: "d < 10 \<Longrightarrow> is_digit (digit_char d)"
  by (simp add: is_digit_def digit_char_def)

lemma digit_char_val: "d < 10 \<Longrightarrow> digit_val (digit_char d) = int d"
  by (simp add: digit_val_nat digit_char_def)

lemma digits_of_digits: "list_all is_digit (digits_of n)"
proof (induction n rule: digits_of.induct)
  case (1 n)
  show ?case
  proof (cases "n < 10")
    case True
    then show ?thesis by (subst digits_of.simps) (simp add: digit_char_digit)
  next
    case False
    with 1 show ?thesis by (subst digits_of.simps) (simp add: digit_char_digit)
  qed
qed

lemma dec_val_single: "dec_val [c] = digit_val c"
  by (simp add: dec_val_def)

lemma dec_val_digits_of: "dec_val (digits_of n) = int n"
proof (induction n rule: digits_of.induct)
  case (1 n)
  show ?case
  proof (cases "n < 10")
    case True
    then show ?thesis by (subst digits_of.simps) (simp add: dec_val_single digit_char_val)
  next
    case False
    then have "dec_val (digits_of n) = dec_val (digits_of (n div 10)) * 10 + int (n mod 10)"
      by (subst digits_of.simps) (simp add: dec_val_snoc digit_char_val)
    also have "\<dots> = int (n div 10) * 10 + int (n mod 10)"
      using 1 False by simp
    also have "\<dots> = int n"
      by (simp add: zdiv_int zmod_int) 
    finally show ?thesis .
  qed
qed

lemma digits_of_nonempty: "digits_of n \<noteq> []"
  by (subst digits_of.simps) simp

lemma digits_of_upper: "n < 10 ^ length (digits_of n)"
proof (induction n rule: digits_of.induct)
  case (1 n)
  show ?case
  proof (cases "n < 10")
    case True
    then show ?thesis by (subst digits_of.simps) simp
  next
    case False
    then have "n div 10 < 10 ^ length (digits_of (n div 10))" using 1 by simp
    then have "n < 10 * 10 ^ length (digits_of (n div 10))" by linarith
    then show ?thesis using False by (subst digits_of.simps) simp
  qed
qed

lemma digits_of_lower: "10 \<le> n \<Longrightarrow> 10 ^ (length (digits_of n) - 1) \<le> n"
proof (induction n rule: digits_of.induct)
  case (1 n)
  then have nl: "\<not> n < 10" by simp
  have len: "length (digits_of n) - 1 = length (digits_of (n div 10))"
    using nl by (subst digits_of.simps) simp
  show ?case
  proof (cases "n div 10 < 10")
    case True
    then have "length (digits_of (n div 10)) = 1"
      by (subst digits_of.simps) simp
    with len 1 show ?thesis by simp
  next
    case False
    then have ih: "10 ^ (length (digits_of (n div 10)) - 1) \<le> n div 10"
      using 1 nl by simp
    have "length (digits_of (n div 10)) = Suc (length (digits_of (n div 10)) - 1)"
      using digits_of_nonempty [of "n div 10"] by (cases "digits_of (n div 10)") simp_all
    then have "(10::nat) ^ length (digits_of (n div 10)) = 10 * 10 ^ (length (digits_of (n div 10)) - 1)"
      by (metis power_Suc)
    also have "\<dots> \<le> 10 * (n div 10)" using ih by simp
    also have "\<dots> \<le> n" by simp
    finally show ?thesis using len by simp
  qed
qed

lemma digits_of_length:
  assumes "1000 \<le> n" "n \<le> 999999999"
  shows "4 \<le> length (digits_of n) \<and> length (digits_of n) \<le> 9"
proof -
  have "\<not> length (digits_of n) \<le> 3"
  proof
    assume "length (digits_of n) \<le> 3"
    then have "(10::nat) ^ length (digits_of n) \<le> 10 ^ 3"
      by (intro power_increasing) simp_all
    with digits_of_upper [of n] assms(1) show False by simp
  qed
  moreover have "\<not> 10 \<le> length (digits_of n)"
  proof
    assume "10 \<le> length (digits_of n)"
    then have "(10::nat) ^ 9 \<le> 10 ^ (length (digits_of n) - 1)"
      by (intro power_increasing) simp_all
    with digits_of_lower [of n] assms show False by simp
  qed
  ultimately show ?thesis by simp
qed

lemma digit_char_simps:
  "digit_char 0 = CHR ''0''" "digit_char 1 = CHR ''1''" "digit_char 2 = CHR ''2''"
  "digit_char 3 = CHR ''3''" "digit_char 4 = CHR ''4''" "digit_char 5 = CHR ''5''"
  "digit_char 6 = CHR ''6''" "digit_char 7 = CHR ''7''" "digit_char 8 = CHR ''8''"
  "digit_char 9 = CHR ''9''" "digit_char (Suc 0) = CHR ''1''"
  by (simp_all add: digit_char_def char_of_eq_iff)

lemma char_of_int_digit: "0 \<le> r \<Longrightarrow> char_of (r + 48 :: int) = digit_char (nat r)"
proof -
  assume "0 \<le> r"
  then have e: "r + 48 = int (48 + nat r)" by simp
  show ?thesis unfolding digit_char_def by (subst e) (rule char_of_nat)
qed

lemma digit_char_nth: "d < 10 \<Longrightarrow> ''0123456789'' ! d = digit_char d"
proof -
  assume "d < 10"
  then have "d \<in> {0, 1, 2, 3, 4, 5, 6, 7, 8, 9}" by auto
  then show ?thesis
    using digit_char_simps by auto
qed

lemma computeCheck_example: "computeCheck 12345678 = CHR ''5''"
  by (simp add: computeCheck_def spec_check_def spec_sum_def spec_digit_def spec_weight_def Itoa_def digits_of.simps)

lemma spec_weight_multipliers: "multipliers ! (j mod 6) = spec_weight j"
  by (simp add: multipliers_def spec_weight_def)

lemma spec_digit_shift: "spec_digit (number div 10) i = spec_digit number (Suc i)"
  by (simp add: spec_digit_def zdiv_zmult2_eq)

lemma upt_shift: "[0..<Suc k] = 0 # map Suc [0..<k]"
  by (simp only: map_Suc_upt upt_conv_Cons [of 0 "Suc k"] zero_less_Suc)

lemma dv_loop_sum:
  "0 \<le> number \<Longrightarrow> number < 10 ^ k \<Longrightarrow>
   dv_loop number s (j mod 6) =
     s + sum_list (map (\<lambda>i. spec_digit number i * spec_weight (j + i)) [0..<k])"
proof (induction k arbitrary: number s j)
  case 0
  then have "number = 0" by simp
  then show ?case by (subst dv_loop.simps) simp
next
  case (Suc k)
  show ?case
  proof (cases "number = 0")
    case True
    have "dv_loop number s (j mod 6) = s"
      using True by (subst dv_loop.simps) simp
    moreover have "sum_list (map (\<lambda>i. spec_digit number i * spec_weight (j + i)) [0..<Suc k]) = 0"
      using True by (simp add: spec_digit_def del: upt_Suc)
    ultimately show ?thesis by simp
  next
    case False
    with Suc.prems have pos: "0 < number" by simp
    have lt: "number div 10 < 10 ^ k" "0 \<le> number div 10"
      using Suc.prems by (simp_all add: div_less_iff_less_mult pos_imp_zdiv_nonneg_iff mult.commute) 
    have idx: "(j mod 6 + 1) mod 6 = Suc j mod 6"
      by (simp add: mod_Suc_eq)
    have "dv_loop number s (j mod 6) =
          dv_loop (number div 10) (s + (number mod 10) * multipliers ! (j mod 6)) (Suc j mod 6)"
      using pos by (subst dv_loop.simps) (simp only: idx if_True)
    also have "\<dots> = s + (number mod 10) * spec_weight j +
          sum_list (map (\<lambda>i. spec_digit (number div 10) i * spec_weight (Suc j + i)) [0..<k])"
      using Suc.IH [OF lt(2) lt(1)] by (simp only: spec_weight_multipliers)
    also have "\<dots> = s + sum_list (map (\<lambda>i. spec_digit number i * spec_weight (j + i)) [0..<Suc k])"
      by (simp add: upt_shift spec_digit_shift comp_def del: upt_Suc) (simp add: spec_digit_def)
    finally show ?thesis .
  qed
qed

lemma CalculateDV_cases:
  "CalculateDV number = CHR ''K'' \<or> is_digit (CalculateDV number)"
proof -
  define r where "r = 11 - dv_loop number 0 0 mod 11"
  have r: "1 \<le> r" "r \<le> 11"
    unfolding r_def by (simp_all add: pos_mod_bound pos_mod_sign le_diff_eq)
  have zero: "is_digit (CHR ''0'')" by (simp add: is_digit_def)
  show ?thesis
  proof (cases "number = 0 \<or> r = 11 \<or> r = 10")
    case True
    then show ?thesis
      using zero by (auto simp: CalculateDV_def Let_def r_def)
  next
    case False
    then have "CalculateDV number = char_of (r + 48)"
      by (simp add: CalculateDV_def Let_def r_def)
    also have "\<dots> = digit_char (nat r)"
      using r by (intro char_of_int_digit) simp
    finally have dv: "CalculateDV number = digit_char (nat r)" .
    from r False have "nat r < 10" by arith
    then have "is_digit (digit_char (nat r))" by (rule digit_char_digit)
    with dv show ?thesis by simp
  qed
qed

lemmas parse_eval =
  Parse_eq meaningful_def is_sep_def allowed_iff is_digit_def normalise_def
  isValidRUTChar_def dec_val_def digit_val_def

lemma RUT_Format_short_example: "RUT_Format \<lparr>Number = 10, DV = CHR ''9''\<rparr> FormatEscaped = ''109''"
  by (simp add: RUT_Format_def FormatEscaped_def Itoa_def digits_of.simps digit_char_simps)

lemma is_digit_char: "is_digit c \<Longrightarrow> c = digit_char (of_char c - 48) \<and> (of_char c :: nat) - 48 < 10"
proof -
  assume d: "is_digit c"
  then have "48 + (of_char c - 48) = (of_char c :: nat)" "(of_char c :: nat) - 48 < 10"
    unfolding is_digit_def by linarith+
  then show ?thesis by (simp add: digit_char_def)
qed

lemma is_digit_set: "is_digit c \<longleftrightarrow> c \<in> set ''0123456789''"
proof
  assume "is_digit c"
  then obtain d where d: "c = digit_char d" "d < 10"
    using is_digit_char by blast
  then have "c = ''0123456789'' ! d" by (simp add: digit_char_nth)
  moreover have "d < length ''0123456789''" using d by simp
  ultimately show "c \<in> set ''0123456789''" by (metis nth_mem)
next
  assume "c \<in> set ''0123456789''"
  then show "is_digit c" by (auto simp: is_digit_def)
qed

lemma Parse_Inr:
  assumes "Parse s = Inr r"
  shows "s \<noteq> [] \<and> list_all allowed (meaningful s) \<and>
         5 \<le> length (meaningful s) \<and> length (meaningful s) \<le> 10 \<and>
         CHR ''K'' \<notin> set (butlast (map normalise (meaningful s))) \<and>
         r = \<lparr>Number = dec_val (butlast (map normalise (meaningful s))),
              DV = last (map normalise (meaningful s))\<rparr>"
proof -
  have 1: "s \<noteq> []" using assms by (auto simp: Parse_eq)
  have 2: "list_all allowed (take 12 (meaningful s))"
    using assms 1 by (auto simp: Parse_eq split: if_splits)
  have 3: "5 \<le> length (meaningful s)" "length (meaningful s) \<le> 10"
    using assms 1 2 by (auto simp: Parse_eq split: if_splits)
  have 4: "CHR ''K'' \<notin> set (butlast (map normalise (meaningful s)))"
    using assms 1 2 3 by (auto simp: Parse_eq split: if_splits)
  have 5: "r = \<lparr>Number = dec_val (butlast (map normalise (meaningful s))),
              DV = last (map normalise (meaningful s))\<rparr>"
    using assms 1 2 3 4 by (simp add: Parse_eq split: if_splits)
  from 2 3 have "list_all allowed (meaningful s)" by simp
  with 1 3 4 5 show ?thesis by blast
qed

lemma normalise_eq_K:
  "allowed c \<Longrightarrow> normalise c = CHR ''K'' \<longleftrightarrow> c = CHR ''K'' \<or> c = CHR ''k''"
  using K_not_digit by (auto simp: allowed_iff normalise_digit normalise_K)

lemma misplaced_letter_normalise:
  assumes "list_all allowed m"
  shows "CHR ''K'' \<in> set (butlast (map normalise m)) \<longleftrightarrow>
         CHR ''K'' \<in> set (butlast m) \<or> CHR ''k'' \<in> set (butlast m)"
proof
  assume "CHR ''K'' \<in> set (butlast (map normalise m))"
  then have "CHR ''K'' \<in> set (map normalise (butlast m))"
    by (simp only: map_butlast)
  then obtain c where c: "c \<in> set (butlast m)" "normalise c = CHR ''K''"
    by auto
  then have "c \<in> set m" by (auto dest: in_set_butlastD)
  with assms have "allowed c" by (simp add: list_all_iff)
  with c(2) have "c = CHR ''K'' \<or> c = CHR ''k''" by (simp add: normalise_eq_K)
  with c(1) show "CHR ''K'' \<in> set (butlast m) \<or> CHR ''k'' \<in> set (butlast m)" by auto
next
  assume "CHR ''K'' \<in> set (butlast m) \<or> CHR ''k'' \<in> set (butlast m)"
  then obtain c where c: "c \<in> set (butlast m)" "normalise c = CHR ''K''"
    using normalise_K by auto
  from c(1) have "normalise c \<in> normalise ` set (butlast m)" by (rule imageI)
  then have "CHR ''K'' \<in> set (map normalise (butlast m))"
    unfolding c(2) by simp
  then show "CHR ''K'' \<in> set (butlast (map normalise m))"
    by (simp only: map_butlast)
qed

lemma Parse_success_iff:
  "(\<exists>r. Parse s = Inr r) \<longleftrightarrow>
     s \<noteq> [] \<and> list_all allowed (meaningful s) \<and>
     5 \<le> length (meaningful s) \<and> length (meaningful s) \<le> 10 \<and> \<not> misplaced_letter s"
proof
  assume "\<exists>r. Parse s = Inr r"
  then obtain r where "Parse s = Inr r" ..
  from Parse_Inr [OF this] have f: "s \<noteq> []" "list_all allowed (meaningful s)"
    "5 \<le> length (meaningful s)" "length (meaningful s) \<le> 10"
    "CHR ''K'' \<notin> set (butlast (map normalise (meaningful s)))"
    by simp_all
  from f(2,5) have "\<not> misplaced_letter s"
    by (simp add: misplaced_letter_def misplaced_letter_normalise)
  with f show "s \<noteq> [] \<and> list_all allowed (meaningful s) \<and>
     5 \<le> length (meaningful s) \<and> length (meaningful s) \<le> 10 \<and> \<not> misplaced_letter s"
    by simp
next
  assume a: "s \<noteq> [] \<and> list_all allowed (meaningful s) \<and>
     5 \<le> length (meaningful s) \<and> length (meaningful s) \<le> 10 \<and> \<not> misplaced_letter s"
  then have "CHR ''K'' \<notin> set (butlast (map normalise (meaningful s)))"
    by (simp add: misplaced_letter_def misplaced_letter_normalise)
  with a show "\<exists>r. Parse s = Inr r" by (simp add: Parse_eq)
qed

lemma list_all_take: "list_all P xs \<Longrightarrow> list_all P (take n xs)"
  by (auto simp: list_all_iff dest: in_set_takeD)

lemma parseable_body_nonempty: "parseable_body s \<Longrightarrow> s \<noteq> []"
  by (auto simp: parseable_body_def meaningful_def Atoi_def)

lemma complete_loop_group:
  "i + length cs = n \<Longrightarrow> complete_loop n i cs b = b @ group_spec cs"
proof (induction cs arbitrary: i b)
  case Nil
  then show ?case by simp
next
  case (Cons c cs)
  then have d: "int n - int i - 1 = int (length cs)" by auto
  have m: "int (length cs) mod 3 = 0 \<longleftrightarrow> length cs mod 3 = 0"
    by presburger
  from Cons.prems have "Suc i + length cs = n" by simp
  then have ih: "complete_loop n (Suc i) cs b' = b' @ group_spec cs" for b'
    by (rule Cons.IH)
  show ?case
    by (simp add: Let_def d m ih del: of_nat_diff)
qed

lemma RUT_Format_cases:
  "RUT_Format r style =
     (if style = FormatEscaped then Itoa (Number r) @ [DV r]
      else if style = FormatWithDash then Itoa (Number r) @ [CHR ''-'', DV r]
      else group_spec (Itoa (Number r)) @ [CHR ''-'', DV r])"
  by (simp add: RUT_Format_def complete_loop_group)

lemma meaningful_append: "meaningful (a @ b) = meaningful a @ meaningful b"
  by (simp add: meaningful_def)

lemma meaningful_group_spec: "meaningful (group_spec cs) = meaningful cs"
  by (induction cs) (simp_all add: meaningful_def is_sep_def)

lemma digit_not_sep: "is_digit c \<Longrightarrow> \<not> is_sep c"
  using K_not_digit by (auto simp: is_sep_def)

lemma meaningful_digits: "list_all is_digit ds \<Longrightarrow> meaningful ds = ds"
  by (induction ds) (simp_all add: meaningful_def digit_not_sep)

lemma meaningful_RUT_Format:
  assumes "list_all is_digit (Itoa (Number r))" "\<not> is_sep (DV r)"
  shows "meaningful (RUT_Format r style) = Itoa (Number r) @ [DV r]"
proof -
  have dv: "meaningful [DV r] = [DV r]" "meaningful [CHR ''-'', DV r] = [DV r]"
    using assms(2) by (simp_all add: meaningful_def is_sep_def)
  show ?thesis
    using assms(1) by (simp add: RUT_Format_cases meaningful_append meaningful_group_spec
        meaningful_digits dv)
qed

section \<open>The claims\<close>

text \<open>
  Claim C1. For every non-negative body, \<open>CalculateDV\<close> returns the reference check
  character: the digits of the body, least significant first, are weighted cyclically by
  2, 3, 4, 5, 6, 7, the products are summed, and \<open>11 - sum mod 11\<close> is mapped to
  \<open>0\<close> (for 11), \<open>K\<close> (for 10) or its decimal digit; a body of zero yields \<open>0\<close>.
\<close>

theorem CalculateDV_reference:
  assumes "0 \<le> body"
  shows "CalculateDV body = computeCheck body"
proof (cases "body = 0")
  case True
  then show ?thesis by (simp add: CalculateDV_def computeCheck_def)
next
  case False
  define k where "k = length (Itoa body)"
  have "Itoa body = digits_of (nat body)"
    using assms by (simp add: Itoa_def)
  then have "nat body < 10 ^ k"
    using digits_of_upper [of "nat body"] by (simp add: k_def)
  then have "int (nat body) < int (10 ^ k)" by (simp only: of_nat_less_iff)
  then have "body < 10 ^ k" using assms by simp
  then have "dv_loop body 0 (0 mod 6) =
             0 + sum_list (map (\<lambda>i. spec_digit body i * spec_weight (0 + i)) [0..<k])"
    using assms by (intro dv_loop_sum)
  then have loop: "dv_loop body 0 0 = spec_sum body k"
    by (simp add: spec_sum_def)
  define r where "r = 11 - spec_sum body k mod 11"
  have r: "1 \<le> r" "r \<le> 11"
    unfolding r_def by (simp_all add: pos_mod_bound pos_mod_sign le_diff_eq)
  have lhs: "CalculateDV body =
        (if r = 11 then CHR ''0'' else if r = 10 then CHR ''K'' else char_of (r + 48))"
    using False by (simp add: CalculateDV_def Let_def loop r_def)
  have rhs: "computeCheck body = spec_check r"
    using False by (simp add: computeCheck_def r_def k_def)
  show ?thesis
  proof (cases "r = 11 \<or> r = 10")
    case True
    then show ?thesis by (auto simp: lhs rhs spec_check_def)
  next
    case False
    with r have "nat r < 10" by arith
    then have "''0123456789'' ! nat r = digit_char (nat r)" by (rule digit_char_nth)
    moreover have "char_of (r + 48) = digit_char (nat r)"
      using r by (intro char_of_int_digit) simp
    ultimately show ?thesis using False by (simp add: lhs rhs spec_check_def)
  qed
qed

theorem CalculateDV_reference_witness:
  "(0::int) \<le> 12345678 \<and> CalculateDV 12345678 = CHR ''5'' \<and> computeCheck 12345678 = CHR ''5''"
  using CalculateDV_reference [of 12345678] computeCheck_example by simp

text \<open>
  Claim C2. \<open>RUT_Validate\<close> is false for every identifier whose number is not positive,
  and otherwise holds exactly when the check digit equals \<open>CalculateDV\<close> of the number.
  \<open>Validate\<close> composes \<open>Parse\<close> with \<open>RUT_Validate\<close> and is false on every parse error.
  A wrong check digit is never a parse error: whether \<open>Parse\<close> succeeds is decided by
  the shape of the text alone, and a text that parses with a mismatching check digit,
  such as \<open>12.345.678-0\<close>, merely validates to false.
\<close>

theorem Validate_semantics:
  "(Number r \<le> 0 \<longrightarrow> \<not> RUT_Validate r) \<and>
   (0 < Number r \<longrightarrow> RUT_Validate r = (DV r = CalculateDV (Number r))) \<and>
   Validate s = (case Parse s of Inl e \<Rightarrow> False | Inr r' \<Rightarrow> RUT_Validate r') \<and>
   (\<forall>e. Parse s = Inl e \<longrightarrow> \<not> Validate s) \<and>
   ((\<exists>r'. Parse s = Inr r') \<longleftrightarrow>
      s \<noteq> [] \<and> list_all allowed (meaningful s) \<and>
      5 \<le> length (meaningful s) \<and> length (meaningful s) \<le> 10 \<and> \<not> misplaced_letter s) \<and>
   (\<forall>r'. Parse s = Inr r' \<and> DV r' \<noteq> CalculateDV (Number r') \<longrightarrow> \<not> Validate s) \<and>
   Parse ''12.345.678-0'' = Inr \<lparr>Number = 12345678, DV = CHR ''0''\<rparr> \<and>
   CalculateDV 12345678 \<noteq> CHR ''0'' \<and>
   \<not> Validate ''12.345.678-0''"
proof -
  have a: "Number r \<le> 0 \<longrightarrow> \<not> RUT_Validate r"
    by (simp add: RUT_Validate_def)
  have b: "0 < Number r \<longrightarrow> RUT_Validate r = (DV r = CalculateDV (Number r))"
    by (simp add: RUT_Validate_def)
  have c: "Validate s = (case Parse s of Inl e \<Rightarrow> False | Inr r' \<Rightarrow> RUT_Validate r')"
    by (simp add: Validate_def)
  have d: "\<forall>e. Parse s = Inl e \<longrightarrow> \<not> Validate s"
    by (simp add: Validate_def)
  have e: "\<forall>r'. Parse s = Inr r' \<and> DV r' \<noteq> CalculateDV (Number r') \<longrightarrow> \<not> Validate s"
    by (auto simp: Validate_def RUT_Validate_def)
  have f: "Parse ''12.345.678-0'' = Inr \<lparr>Number = 12345678, DV = CHR ''0''\<rparr>"
    by (simp add: parse_eval)
  have g: "CalculateDV 12345678 = CHR ''5''"
    by (simp add: CalculateDV_def dv_loop.simps multipliers_def Let_def char_of_eq_iff)
  then have g': "CalculateDV 12345678 \<noteq> CHR ''0''" by simp
  have h: "\<not> Validate ''12.345.678-0''"
    using f g by (simp add: Validate_def RUT_Validate_def)
  show ?thesis
    using a b c d e f g' h Parse_success_iff [of s] by blast
qed

theorem Validate_semantics_witness:
  "RUT_Validate \<lparr>Number = 12345678, DV = CHR ''5''\<rparr> \<and>
   \<not> RUT_Validate \<lparr>Number = 0, DV = CHR ''0''\<rparr> \<and>
   Parse ''123'' = Inl ErrTooShort \<and> \<not> Validate ''123'' \<and>
   Parse ''12.345.678-5'' = Inr \<lparr>Number = 12345678, DV = CHR ''5''\<rparr> \<and>
   Validate ''12.345.678-5''"
proof -
  have g: "CalculateDV 12345678 = CHR ''5''"
    by (simp add: CalculateDV_def dv_loop.simps multipliers_def Let_def char_of_eq_iff)
  have p: "Parse ''12.345.678-5'' = Inr \<lparr>Number = 12345678, DV = CHR ''5''\<rparr>"
    by (simp add: parse_eval)
  have q: "Parse ''123'' = Inl ErrTooShort"
    by (simp add: parse_eval)
  show ?thesis
    using Validate_semantics [of "\<lparr>Number = 12345678, DV = CHR ''5''\<rparr>" "''12.345.678-5''"]
      Validate_semantics [of "\<lparr>Number = 0, DV = CHR ''0''\<rparr>" "''123''"] g p q
    by simp
qed

text \<open>
  Claim C3, as stated: for every identifier whose check digit is \<open>CalculateDV\<close> of its
  body, \<open>Parse\<close> recovers the identifier from each of its three renderings. The
  identifier with body 1 and check digit 9 is valid, and \<open>Parse\<close> itself returns it for
  \<open>0001-9\<close>; its renderings \<open>1-9\<close> and \<open>19\<close> have fewer than 5 meaningful characters and
  are rejected with \<open>ErrTooShort\<close>.
\<close>

theorem Parse_Format_roundtrip_counterexample:
  "CalculateDV 1 = CHR ''9'' \<and>
   RUT_Validate \<lparr>Number = 1, DV = CHR ''9''\<rparr> \<and>
   Parse ''0001-9'' = Inr \<lparr>Number = 1, DV = CHR ''9''\<rparr> \<and>
   RUT_Format \<lparr>Number = 1, DV = CHR ''9''\<rparr> FormatComplete = ''1-9'' \<and>
   RUT_Format \<lparr>Number = 1, DV = CHR ''9''\<rparr> FormatEscaped = ''19'' \<and>
   RUT_Format \<lparr>Number = 1, DV = CHR ''9''\<rparr> FormatWithDash = ''1-9'' \<and>
   Parse ''1-9'' = Inl ErrTooShort \<and>
   Parse ''19'' = Inl ErrTooShort"
proof -
  have dv: "CalculateDV 1 = CHR ''9''"
    by (simp add: CalculateDV_def dv_loop.simps multipliers_def Let_def char_of_eq_iff)
  have it: "Itoa 1 = ''1''"
    by (simp add: Itoa_def digits_of.simps digit_char_simps)
  show ?thesis
    by (simp add: dv it RUT_Validate_def RUT_Format_cases FormatComplete_def FormatEscaped_def
        FormatWithDash_def parse_eval)
qed

text \<open>
  Claim C3, amended. For every identifier whose body lies between 1000 and 999999999
  (4 to 9 digits) and whose check digit is \<open>CalculateDV\<close> of the body, \<open>Parse\<close> applied to
  the rendering in any style, in particular in each of the three named styles, succeeds
  and returns the identifier.
\<close>

theorem Parse_Format_roundtrip:
  assumes "1000 \<le> Number r" "Number r \<le> 999999999" "DV r = CalculateDV (Number r)"
  shows "Parse (RUT_Format r style) = Inr r \<and>
         Parse (RUT_Format r FormatComplete) = Inr r \<and>
         Parse (RUT_Format r FormatEscaped) = Inr r \<and>
         Parse (RUT_Format r FormatWithDash) = Inr r"
proof -
  define ds where "ds = Itoa (Number r)"
  define d where "d = DV r"
  have ds: "ds = digits_of (nat (Number r))"
    using assms(1) by (simp add: ds_def Itoa_def)
  have digs: "list_all is_digit ds"
    unfolding ds by (rule digits_of_digits)
  have "1000 \<le> nat (Number r)" "nat (Number r) \<le> 999999999"
    using assms(1,2) by simp_all
  then have len: "4 \<le> length ds" "length ds \<le> 9"
    using digits_of_length unfolding ds by blast+
  have val: "dec_val ds = Number r"
    using assms(1) unfolding ds by (simp add: dec_val_digits_of)
  have d: "d = CHR ''K'' \<or> is_digit d"
    using CalculateDV_cases [of "Number r"] assms(3) by (simp add: d_def)
  then have d_sep: "\<not> is_sep d"
    using digit_not_sep by (auto simp: is_sep_def)
  from d have d_al: "allowed d" by (auto simp: allowed_iff)
  from d have d_norm: "normalise d = d"
    by (auto simp: normalise_digit normalise_K)
  have ds_al: "list_all allowed ds"
    using digs by (simp add: list_all_iff allowed_iff)
  have ds_norm: "map normalise ds = ds"
    using digs by (simp add: list_all_iff normalise_digit map_idI)
  have noK: "CHR ''K'' \<notin> set ds"
    using digs K_not_digit(1) by (auto simp: list_all_iff)
  have "Parse (RUT_Format r st) = Inr r" for st
  proof -
    have m: "meaningful (RUT_Format r st) = ds @ [d]"
      using digs d_sep unfolding ds_def d_def by (rule meaningful_RUT_Format)
    then have "meaningful (RUT_Format r st) \<noteq> []" by simp
    then have ne: "RUT_Format r st \<noteq> []" by (auto simp: meaningful_def)
    have "Parse (RUT_Format r st) = Inr \<lparr>Number = dec_val ds, DV = d\<rparr>"
      using ne len ds_al d_al noK by (simp add: Parse_eq m ds_norm d_norm)
    then show ?thesis by (simp add: val d_def)
  qed
  then show ?thesis by blast
qed

theorem Parse_Format_roundtrip_witness:
  "(1000::int) \<le> 1009 \<and> (1009::int) \<le> 999999999 \<and> CHR ''K'' = CalculateDV 1009 \<and>
   RUT_Format \<lparr>Number = 1009, DV = CHR ''K''\<rparr> FormatComplete = ''1.009-K'' \<and>
   Parse ''1.009-K'' = Inr \<lparr>Number = 1009, DV = CHR ''K''\<rparr>"
proof -
  have dv: "CalculateDV 1009 = CHR ''K''"
    by (simp add: CalculateDV_def dv_loop.simps multipliers_def)
  have it: "Itoa 1009 = ''1009''"
    by (simp add: Itoa_def digits_of.simps digit_char_simps)
  have f: "RUT_Format \<lparr>Number = 1009, DV = CHR ''K''\<rparr> FormatComplete = ''1.009-K''"
    by (simp add: RUT_Format_cases it FormatComplete_def FormatEscaped_def FormatWithDash_def)
  show ?thesis
    using Parse_Format_roundtrip [of "\<lparr>Number = 1009, DV = CHR ''K''\<rparr>" FormatComplete] dv f
    by simp
qed

text \<open>
  Claim C4. Take an input whose meaningful characters all belong to the allowed
  alphabet, with no \<open>K\<close> or \<open>k\<close> before the last of them, and whose body is parseable.
  With fewer than 5 meaningful characters \<open>Parse\<close> fails with \<open>ErrTooShort\<close>, with more
  than 10 it fails with \<open>ErrTooLong\<close>, and with 5 to 10 of them (so with exactly 5 and
  with exactly 10) it succeeds, whatever the check digit is.
\<close>

theorem Parse_length_boundary:
  assumes "list_all allowed (meaningful s)" "\<not> misplaced_letter s" "parseable_body s"
  shows "(length (meaningful s) < 5 \<longrightarrow> Parse s = Inl ErrTooShort) \<and>
         (10 < length (meaningful s) \<longrightarrow> Parse s = Inl ErrTooLong) \<and>
         (5 \<le> length (meaningful s) \<and> length (meaningful s) \<le> 10 \<longrightarrow>
            Parse s = Inr \<lparr>Number = dec_val (butlast (map normalise (meaningful s))),
                           DV = last (map normalise (meaningful s))\<rparr>)"
proof -
  have ne: "s \<noteq> []" using assms(3) by (rule parseable_body_nonempty)
  have al: "list_all allowed (take 12 (meaningful s))"
    using assms(1) by (rule list_all_take)
  have noK: "CHR ''K'' \<notin> set (butlast (map normalise (meaningful s)))"
    using assms(1,2) by (simp add: misplaced_letter_def misplaced_letter_normalise)
  show ?thesis using ne al noK assms(1) by (simp add: Parse_eq)
qed

theorem Parse_length_boundary_witness:
  "Parse ''1-9'' = Inl ErrTooShort \<and>
   Parse ''12345678901'' = Inl ErrTooLong \<and>
   Parse ''1234-0'' = Inr \<lparr>Number = 1234, DV = CHR ''0''\<rparr> \<and>
   Parse ''12.345.678-9K'' = Inr \<lparr>Number = 123456789, DV = CHR ''K''\<rparr>"
  using Parse_length_boundary [of "''1-9''"] Parse_length_boundary [of "''12345678901''"]
    Parse_length_boundary [of "''1234-0''"] Parse_length_boundary [of "''12.345.678-9K''"]
  by (simp add: meaningful_def is_sep_def allowed_iff is_digit_def normalise_def
      isValidRUTChar_def misplaced_letter_def parseable_body_def Atoi_def dec_val_def digit_val_def)

text \<open>
  Claim C5, as stated: every input with a \<open>K\<close> or \<open>k\<close> before the last meaningful
  character is rejected with \<open>ErrInvalidFormat\<close>. The length check comes first in
  \<open>Parse\<close>, so the short input \<open>1K-9\<close> is rejected with \<open>ErrTooShort\<close> instead.
\<close>

theorem Parse_misplaced_letter_counterexample:
  "misplaced_letter ''1K-9'' \<and> Parse ''1K-9'' = Inl ErrTooShort \<and>
   Parse ''1K-9'' \<noteq> Inl ErrInvalidFormat"
  by (simp add: misplaced_letter_def parse_eval)

text \<open>
  Claim C5, amended. An input with a \<open>K\<close> or \<open>k\<close> before the last meaningful character
  never parses, and it is rejected with \<open>ErrInvalidFormat\<close> whenever it has between 5 and
  10 meaningful characters, whatever the position and the case of the letter.
\<close>

theorem Parse_misplaced_letter:
  assumes "misplaced_letter s"
  shows "(\<exists>e. Parse s = Inl e) \<and>
         (5 \<le> length (meaningful s) \<and> length (meaningful s) \<le> 10 \<longrightarrow>
            Parse s = Inl ErrInvalidFormat)"
proof -
  from assms have "meaningful s \<noteq> []" by (auto simp: misplaced_letter_def)
  then have ne: "s \<noteq> []" by (auto simp: meaningful_def)
  have fail: "\<exists>e. Parse s = Inl e"
  proof (cases "Parse s")
    case (Inl e)
    then show ?thesis by blast
  next
    case (Inr r)
    then have "\<exists>r. Parse s = Inr r" by blast
    with assms show ?thesis by (simp add: Parse_success_iff)
  qed
  have "Parse s = Inl ErrInvalidFormat"
    if len: "5 \<le> length (meaningful s)" "length (meaningful s) \<le> 10"
  proof (cases "list_all allowed (meaningful s)")
    case False
    with len ne show ?thesis by (simp add: Parse_eq)
  next
    case True
    with assms have "CHR ''K'' \<in> set (butlast (map normalise (meaningful s)))"
      by (simp add: misplaced_letter_def misplaced_letter_normalise)
    with len ne True show ?thesis by (simp add: Parse_eq)
  qed
  with fail show ?thesis by blast
qed

theorem Parse_misplaced_letter_witness:
  "misplaced_letter ''12.34k.678-5'' \<and> length (meaningful ''12.34k.678-5'') = 9 \<and>
   Parse ''12.34k.678-5'' = Inl ErrInvalidFormat"
  using Parse_misplaced_letter [of "''12.34k.678-5''"]
  by (simp add: misplaced_letter_def meaningful_def is_sep_def)

text \<open>
  Claim C6. In the complete style \<open>RUT_Format\<close> writes the decimal string of the number
  with a period after a character exactly when the count of characters remaining after
  it is positive and a multiple of three, then a hyphen and the check digit. For a number
  that is not negative the decimal string consists of its decimal digits only. In
  particular \<open>Format\<close> renders \<open>123456785\<close> as \<open>12.345.678-5\<close>.
\<close>

theorem Format_Complete_grouping:
  "RUT_Format r FormatComplete = group_spec (Itoa (Number r)) @ [CHR ''-'', DV r] \<and>
   (0 \<le> Number r \<longrightarrow>
      list_all is_digit (Itoa (Number r)) \<and> dec_val (Itoa (Number r)) = Number r) \<and>
   Format ''123456785'' FormatComplete = Inr ''12.345.678-5''"
proof -
  have a: "RUT_Format r FormatComplete = group_spec (Itoa (Number r)) @ [CHR ''-'', DV r]"
    by (simp add: RUT_Format_def FormatComplete_def FormatEscaped_def FormatWithDash_def
        complete_loop_group)
  have b: "list_all is_digit (Itoa (Number r)) \<and> dec_val (Itoa (Number r)) = Number r"
    if "0 \<le> Number r"
    using that by (simp add: Itoa_def digits_of_digits dec_val_digits_of)
  have p: "Parse ''123456785'' = Inr \<lparr>Number = 12345678, DV = CHR ''5''\<rparr>"
    by (simp add: parse_eval)
  have it: "Itoa 12345678 = ''12345678''"
    by (simp add: Itoa_def digits_of.simps digit_char_simps)
  have c: "Format ''123456785'' FormatComplete = Inr ''12.345.678-5''"
    by (simp add: Format_def p RUT_Format_def FormatComplete_def FormatEscaped_def
        FormatWithDash_def it)
  from a b c show ?thesis by blast
qed

theorem Format_Complete_grouping_witness:
  "RUT_Format \<lparr>Number = 1234567, DV = CHR ''K''\<rparr> FormatComplete = ''1.234.567-K'' \<and>
   (0::int) \<le> 1234567 \<and> list_all is_digit ''1234567'' \<and> dec_val ''1234567'' = 1234567"
proof -
  have it: "Itoa 1234567 = ''1234567''"
    by (simp add: Itoa_def digits_of.simps digit_char_simps)
  show ?thesis
    using Format_Complete_grouping [of "\<lparr>Number = 1234567, DV = CHR ''K''\<rparr>"]
    by (simp add: it)
qed

text \<open>
  Claim C7, as stated: a non-empty input with fewer than 5 meaningful characters that
  also holds a character outside the alphabet yields \<open>ErrTooShort\<close>. The scan rejects
  the bad character before the length is looked at: \<open>abc-d\<close> yields \<open>ErrInvalidFormat\<close>.
\<close>

theorem Parse_error_priority_counterexample:
  "''abc-d'' \<noteq> [] \<and> length (meaningful ''abc-d'') < 5 \<and>
   \<not> list_all allowed (meaningful ''abc-d'') \<and>
   Parse ''abc-d'' = Inl ErrInvalidFormat \<and> Parse ''abc-d'' \<noteq> Inl ErrTooShort"
  by (simp add: parse_eval)

text \<open>
  Claim C7, amended. \<open>Parse\<close> reports its errors in this order: the empty input first;
  then a character outside the alphabet among the first twelve meaningful characters
  (\<open>ErrInvalidFormat\<close>); then more than 10 meaningful characters (\<open>ErrTooLong\<close>); then
  fewer than 5 (\<open>ErrTooShort\<close>); then a misplaced check letter (\<open>ErrInvalidFormat\<close>).
  In particular a non-empty input with fewer than 5 meaningful characters, one of them
  outside the alphabet, yields \<open>ErrInvalidFormat\<close>.
\<close>

theorem Parse_error_priority:
  "Parse s =
     (if s = [] then Inl ErrEmptyRUT
      else if \<not> list_all allowed (take 12 (meaningful s)) then Inl ErrInvalidFormat
      else if 10 < length (meaningful s) then Inl ErrTooLong
      else if length (meaningful s) < 5 then Inl ErrTooShort
      else if misplaced_letter s then Inl ErrInvalidFormat
      else Inr \<lparr>Number = dec_val (butlast (map normalise (meaningful s))),
                DV = last (map normalise (meaningful s))\<rparr>) \<and>
   (s \<noteq> [] \<and> length (meaningful s) < 5 \<and> \<not> list_all allowed (meaningful s) \<longrightarrow>
      Parse s = Inl ErrInvalidFormat)"
proof -
  have "misplaced_letter s \<longleftrightarrow> CHR ''K'' \<in> set (butlast (map normalise (meaningful s)))"
    if "list_all allowed (take 12 (meaningful s))" "\<not> 10 < length (meaningful s)"
    using that by (simp add: misplaced_letter_def misplaced_letter_normalise)
  then show ?thesis
    by (auto simp: Parse_eq)
qed

theorem Parse_error_priority_witness:
  "''12x'' \<noteq> [] \<and> length (meaningful ''12x'') < 5 \<and> \<not> list_all allowed (meaningful ''12x'') \<and>
   Parse ''12x'' = Inl ErrInvalidFormat"
  using Parse_error_priority [of "''12x''"]
  by (simp add: meaningful_def is_sep_def allowed_iff is_digit_def)

text \<open>
  Claim C8. A non-empty input made only of the separators \<open>.\<close> and \<open>-\<close> is rejected
  with \<open>ErrTooShort\<close>, not with \<open>ErrEmptyRUT\<close>.
\<close>

theorem Parse_only_separators:
  assumes "s \<noteq> []" "\<forall>c \<in> set s. c = CHR ''.'' \<or> c = CHR ''-''"
  shows "Parse s = Inl ErrTooShort"
proof -
  have "meaningful s = []"
    using assms(2) by (auto simp: meaningful_def is_sep_def filter_empty_conv)
  then show ?thesis using assms(1) by (simp add: Parse_eq)
qed

theorem Parse_only_separators_witness:
  "''.-.'' \<noteq> [] \<and> list_all is_sep ''.-.'' \<and> Parse ''.-.'' = Inl ErrTooShort"
  using Parse_only_separators [of "''.-.''"] by (simp add: is_sep_def)

text \<open>
  Claim C9. Whenever \<open>Parse\<close> succeeds, the number lies between 0 and 999999999 and the
  check digit is one of \<open>0\<close> to \<open>9\<close> or an upper-case \<open>K\<close>. The number can be 0: the
  input \<open>0000-0\<close> parses to it, and \<open>RUT_Validate\<close> rejects the result.
\<close>

theorem Parse_result_invariant:
  "(Parse s = Inr r \<longrightarrow>
      0 \<le> Number r \<and> Number r \<le> 999999999 \<and> DV r \<in> set ''0123456789K'') \<and>
   Parse ''0000-0'' = Inr \<lparr>Number = 0, DV = CHR ''0''\<rparr> \<and>
   \<not> RUT_Validate \<lparr>Number = 0, DV = CHR ''0''\<rparr>"
proof -
  have "0 \<le> Number r \<and> Number r \<le> 999999999 \<and> DV r \<in> set ''0123456789K''"
    if p: "Parse s = Inr r"
  proof -
    define xs where "xs = map normalise (meaningful s)"
    from Parse_Inr [OF p] have all: "list_all allowed (meaningful s)"
      and len: "5 \<le> length xs" "length xs \<le> 10"
      and noK: "CHR ''K'' \<notin> set (butlast xs)"
      and r: "r = \<lparr>Number = dec_val (butlast xs), DV = last xs\<rparr>"
      by (simp_all add: xs_def)
    have digs: "list_all is_digit (butlast xs)"
      using all noK body_digits unfolding xs_def by blast
    then have "0 \<le> dec_val (butlast xs)" "dec_val (butlast xs) < 10 ^ length (butlast xs)"
      using dec_val_range by blast+
    moreover have "(10::int) ^ length (butlast xs) \<le> 10 ^ 9"
      using len by (intro power_increasing) simp_all
    ultimately have num: "0 \<le> Number r" "Number r \<le> 999999999"
      using r by simp_all
    from len have "xs \<noteq> []" by auto
    then have "last xs \<in> set xs" by simp
    then obtain c where "c \<in> set (meaningful s)" "last xs = normalise c"
      unfolding xs_def by auto
    with all have "is_digit (last xs) \<or> last xs = CHR ''K''"
      using normalise_allowed by (auto simp: list_all_iff)
    then have "DV r \<in> set ''0123456789K''"
      using r is_digit_set by auto
    with num show ?thesis by simp
  qed
  moreover have "Parse ''0000-0'' = Inr \<lparr>Number = 0, DV = CHR ''0''\<rparr>"
    by (simp add: parse_eval)
  moreover have "\<not> RUT_Validate \<lparr>Number = 0, DV = CHR ''0''\<rparr>"
    by (simp add: RUT_Validate_def)
  ultimately show ?thesis by blast
qed

theorem Parse_result_invariant_witness:
  "Parse ''1.009-k'' = Inr \<lparr>Number = 1009, DV = CHR ''K''\<rparr> \<and>
   (0::int) \<le> 1009 \<and> (1009::int) \<le> 999999999 \<and> CHR ''K'' \<in> set ''0123456789K''"
  using Parse_result_invariant [of "''1.009-k''" "\<lparr>Number = 1009, DV = CHR ''K''\<rparr>"]
  by (simp add: parse_eval)

text \<open>
  Claim C10. \<open>Parse\<close> accepts a body with leading zeros and drops them in the number:
  \<open>00.010-9\<close> parses to the number 10, the escaped rendering \<open>109\<close> of the result differs
  from the input without its separators, \<open>000109\<close>, and \<open>109\<close> itself does not parse.
\<close>

theorem Parse_leading_zeros:
  "Parse ''00.010-9'' = Inr \<lparr>Number = 10, DV = CHR ''9''\<rparr> \<and>
   RUT_Format \<lparr>Number = 10, DV = CHR ''9''\<rparr> FormatEscaped = ''109'' \<and>
   meaningful ''00.010-9'' = ''000109'' \<and>
   ''109'' \<noteq> ''000109'' \<and>
   Parse ''109'' = Inl ErrTooShort"
  by (simp add: parse_eval RUT_Format_short_example)

end
